theory Spec2Isabelle
  imports Main
begin

section \<open>The worker pool of \<open>src/server/src/workers/WorkerPool.ts\<close>\<close>

text \<open>
  The pool owns three arrays (\<open>workers\<close>, \<open>availableWorkers\<close>, \<open>taskQueue\<close>) and
  talks to three things of the platform: \<open>Worker\<close> objects (event emitters with
  \<open>once\<close>, \<open>off\<close>, \<open>postMessage\<close>, \<open>terminate\<close>), promises (\<open>resolve\<close>, \<open>reject\<close>)
  and the console. The model keeps the pool's fields under the names of the source and
  adds, in the same record, what the platform remembers: the attached listeners, the
  calls of \<open>postMessage\<close>, the calls of \<open>resolve\<close> and \<open>reject\<close>, the console lines
  and the workers that have stopped.

  A \<open>Worker\<close> object is a handle, the number of \<open>new Worker\<close> calls made before it.
  A promise is a handle too, the number of promises created before it; the \<open>resolve\<close>
  and \<open>reject\<close> functions a task carries are those of its promise.

  What the model takes from the platform: \<open>new Worker\<close> and \<open>postMessage\<close> succeed
  (the script exists, the payload can be cloned); a message of a worker has the shape
  the worker unit of this repository posts; \<open>poolSize\<close> is an integer; a worker whose
  termination has been awaited to its end, or whose thread has thrown an uncaught
  exception, has stopped and emits nothing more. Everything else a worker
  may do is left open: it may emit \<open>message\<close>, \<open>error\<close> and \<open>exit\<close> at any time and in
  any number, whether or not a task was posted to it.
\<close>

type_synonym payload = string
type_synonym worker = nat
type_synonym promise_id = nat

datatype js_error = Error string | TypeError string

text \<open>The message a worker posts back: \<open>{success, error?, message?}\<close>.\<close>

record result =
  success :: bool
  error :: "string option"
  message :: "string option"

text \<open>\<open>interface WorkerTask { data; resolve; reject }\<close>.\<close>

record WorkerTask =
  data :: payload
  promise :: promise_id

datatype outcome = Fulfilled result | Rejected js_error

record pool =
  workers :: "worker list"
  availableWorkers :: "worker list"
  taskQueue :: "WorkerTask list"
  workerScript :: string
  poolSize :: int
  spawned :: nat
  messageListeners :: "(worker \<times> WorkerTask) list"
  errorListeners :: "(worker \<times> WorkerTask) list"
  posted :: "(worker \<times> WorkerTask) list"
  promises :: nat
  settled :: "(promise_id \<times> outcome) list"
  console :: "string list"
  awaiting :: "worker list list"
  terminated :: "worker list"

text \<open>
  \<^item> \<open>spawned\<close>: how many \<open>Worker\<close> objects exist.
  \<^item> \<open>messageListeners\<close>, \<open>errorListeners\<close>: the \<open>messageHandler\<close> and \<open>errorHandler\<close>
    closures attached with \<open>once\<close>, oldest first. A closure of \<open>executeTask\<close> is the
    pair of the two variables it captures, \<open>worker\<close> and \<open>task\<close>; it is attached to the
    worker it captures.
  \<^item> \<open>posted\<close>: the calls \<open>worker.postMessage(task.data)\<close>, oldest first, each with the
    worker and the task whose data was sent.
  \<^item> \<open>promises\<close>: how many promises \<open>runTask\<close> has created.
  \<^item> \<open>settled\<close>: the calls of \<open>task.resolve\<close> and \<open>task.reject\<close>, oldest first.
  \<^item> \<open>console\<close>: the lines written with \<open>console.error\<close>.
  \<^item> \<open>awaiting\<close>: the calls of \<open>terminate\<close> suspended at their \<open>await\<close>, each with
    the workers whose termination it awaits.
  \<^item> \<open>terminated\<close>: the workers that have stopped, because their termination has
    been awaited to its end or because their thread threw an uncaught exception; a
    stopped worker emits no further \<open>message\<close> or \<open>error\<close> event.
\<close>

subsection \<open>Construction\<close>

text \<open>
  \<open>createWorker\<close>: \<open>new Worker(this.workerScript)\<close>, then two listeners that only log
  (they are permanent, so they are part of how \<open>error\<close> and \<open>exit\<close> events are
  delivered below).
\<close>

definition createWorker :: "pool \<Rightarrow> worker \<times> pool" where
  "createWorker s = (spawned s, s\<lparr>spawned := Suc (spawned s)\<rparr>)"

text \<open>The loop \<open>for (let i = 0; i < this.poolSize; i++)\<close> of \<open>initializePool\<close>.\<close>

function initializePool_loop :: "int \<Rightarrow> pool \<Rightarrow> pool" where
  "initializePool_loop i s =
     (if i < poolSize s then
        (case createWorker s of (w, s1) \<Rightarrow>
           initializePool_loop (i + 1)
             (s1\<lparr>workers := workers s1 @ [w],
                 availableWorkers := availableWorkers s1 @ [w]\<rparr>))
      else s)"
  by pat_completeness auto
termination
  by (relation "measure (\<lambda>(i, s). nat (poolSize s - i))") (auto simp: createWorker_def)

definition initializePool :: "pool \<Rightarrow> pool" where
  "initializePool s = initializePool_loop 0 s"

text \<open>The field initialisers of the class, before the constructor body runs.\<close>

definition fresh :: pool where
  "fresh = \<lparr>workers = [], availableWorkers = [], taskQueue = [], workerScript = [],
            poolSize = 0, spawned = 0, messageListeners = [], errorListeners = [],
            posted = [], promises = 0, settled = [], console = [], awaiting = [],
            terminated = []\<rparr>"

text \<open>
  The parameter \<open>poolSize: number = 4\<close>: the argument is optional (\<open>None\<close>: omitted).
  \<open>poolSize\<close> is an integer here.
\<close>

definition poolSize_arg :: "int option \<Rightarrow> int" where
  "poolSize_arg sz = (case sz of None \<Rightarrow> 4 | Some n \<Rightarrow> n)"

text \<open>
  \<open>new WorkerPool(workerScript, poolSize)\<close>. A \<open>new\<close> expression either yields the
  object or throws; the constructor has no \<open>throw\<close> and no check of \<open>poolSize\<close>.
\<close>

definition WorkerPool_new :: "string \<Rightarrow> int option \<Rightarrow> js_error + pool" where
  "WorkerPool_new script sz =
     Inr (initializePool (fresh\<lparr>workerScript := script, poolSize := poolSize_arg sz\<rparr>))"

subsection \<open>Promises and listeners\<close>

definition resolve :: "WorkerTask \<Rightarrow> result \<Rightarrow> pool \<Rightarrow> pool" where
  "resolve task v s = s\<lparr>settled := settled s @ [(promise task, Fulfilled v)]\<rparr>"

definition reject :: "WorkerTask \<Rightarrow> js_error \<Rightarrow> pool \<Rightarrow> pool" where
  "reject task e s = s\<lparr>settled := settled s @ [(promise task, Rejected e)]\<rparr>"

text \<open>The calls of \<open>resolve\<close> and \<open>reject\<close> made for one promise.\<close>

definition settlements :: "pool \<Rightarrow> promise_id \<Rightarrow> outcome list" where
  "settlements s p = map snd (filter (\<lambda>c. fst c = p) (settled s))"

text \<open>
  \<open>emitter.off(event, listener)\<close> removes one instance of the listener, the most
  recently attached one, and nothing when it is not attached.
\<close>

definition removeListener :: "'a \<Rightarrow> 'a list \<Rightarrow> 'a list" where
  "removeListener x xs = rev (remove1 x (rev xs))"

text \<open>\<open>x || d\<close> for a string \<open>x\<close> that may be absent: absent and empty are falsy.\<close>

definition or_else :: "string option \<Rightarrow> string \<Rightarrow> string" where
  "or_else x d = (case x of None \<Rightarrow> d | Some m \<Rightarrow> if m = [] then d else m)"

subsection \<open>Dispatch\<close>

text \<open>
  \<open>executeTask\<close>. \<open>availableWorkers.pop()!\<close> takes the last element; on an empty array
  it yields \<open>undefined\<close> and leaves the array as it is, and the next statement that
  touches the worker, \<open>worker.once(...)\<close>, throws a \<open>TypeError\<close>.
\<close>

definition executeTask :: "WorkerTask \<Rightarrow> pool \<Rightarrow> js_error + pool" where
  "executeTask task s =
     (if availableWorkers s = [] then
        Inl (TypeError ''Cannot read properties of undefined'')
      else
        (let w = last (availableWorkers s);
             s1 = s\<lparr>availableWorkers := butlast (availableWorkers s)\<rparr>;
             s2 = s1\<lparr>messageListeners := messageListeners s1 @ [(w, task)]\<rparr>;
             s3 = s2\<lparr>errorListeners := errorListeners s2 @ [(w, task)]\<rparr>
         in Inr (s3\<lparr>posted := posted s3 @ [(w, task)]\<rparr>)))"

text \<open>
  The closure \<open>messageHandler\<close> of an \<open>executeTask\<close> call with variables \<open>worker\<close> and
  \<open>task\<close>, applied to a result. An exception of the nested \<open>executeTask\<close> leaves the
  handler before the promise is settled.
\<close>

definition messageHandler :: "worker \<Rightarrow> WorkerTask \<Rightarrow> result \<Rightarrow> pool \<Rightarrow> js_error + pool" where
  "messageHandler w task res s =
     (let s1 = s\<lparr>messageListeners := removeListener (w, task) (messageListeners s)\<rparr>;
          s2 = s1\<lparr>errorListeners := removeListener (w, task) (errorListeners s1)\<rparr>;
          s3 = s2\<lparr>availableWorkers := availableWorkers s2 @ [w]\<rparr>
      in case (if taskQueue s3 \<noteq> [] then
                 executeTask (hd (taskQueue s3)) (s3\<lparr>taskQueue := tl (taskQueue s3)\<rparr>)
               else Inr s3) of
           Inl e \<Rightarrow> Inl e
         | Inr s4 \<Rightarrow>
             Inr (if success res then resolve task res s4
                  else reject task (Error (or_else (error res) ''Task failed'')) s4))"

text \<open>The closure \<open>errorHandler\<close>, applied to the error of an \<open>error\<close> event.\<close>

definition errorHandler :: "worker \<Rightarrow> WorkerTask \<Rightarrow> js_error \<Rightarrow> pool \<Rightarrow> js_error + pool" where
  "errorHandler w task err s =
     (let s1 = s\<lparr>messageListeners := removeListener (w, task) (messageListeners s)\<rparr>;
          s2 = s1\<lparr>errorListeners := removeListener (w, task) (errorListeners s1)\<rparr>;
          s3 = s2\<lparr>availableWorkers := availableWorkers s2 @ [w]\<rparr>
      in case (if taskQueue s3 \<noteq> [] then
                 executeTask (hd (taskQueue s3)) (s3\<lparr>taskQueue := tl (taskQueue s3)\<rparr>)
               else Inr s3) of
           Inl e \<Rightarrow> Inl e
         | Inr s4 \<Rightarrow> Inr (reject task err s4))"

text \<open>
  The executor \<open>(resolve, reject) => { ... }\<close> of \<open>runTask\<close>, for the task built from
  the data and the new promise.
\<close>

definition executor :: "WorkerTask \<Rightarrow> pool \<Rightarrow> js_error + pool" where
  "executor task s =
     (if length (availableWorkers s) > 0 then executeTask task s
      else Inr (s\<lparr>taskQueue := taskQueue s @ [task]\<rparr>))"

text \<open>
  \<open>runTask\<close>: \<open>new Promise(executor)\<close> runs the executor at once and returns the
  promise; an exception of the executor does not leave \<open>runTask\<close>, it rejects the promise.
\<close>

definition runTask :: "payload \<Rightarrow> pool \<Rightarrow> promise_id \<times> pool" where
  "runTask d s =
     (let p = promises s;
          s1 = s\<lparr>promises := Suc p\<rparr>;
          task = \<lparr>data = d, promise = p\<rparr>
      in case executor task s1 of
           Inr s2 \<Rightarrow> (p, s2)
         | Inl e \<Rightarrow> (p, reject task e s1))"

subsection \<open>Events\<close>

text \<open>
  \<open>emit('message', res)\<close> on a worker calls the listeners attached at that moment, in
  the order of attachment. A listener attached with \<open>once\<close> is detached just before
  it is called.
\<close>

fun emit_message :: "(worker \<times> WorkerTask) list \<Rightarrow> result \<Rightarrow> pool \<Rightarrow> js_error + pool" where
  "emit_message [] res s = Inr s"
| "emit_message ((w, task) # ls) res s =
     (case messageHandler w task res
             (s\<lparr>messageListeners := removeListener (w, task) (messageListeners s)\<rparr>) of
        Inl e \<Rightarrow> Inl e
      | Inr s' \<Rightarrow> emit_message ls res s')"

text \<open>
  \<open>emit('error', err)\<close>: the permanent listener of \<open>createWorker\<close> was attached first
  and logs; then the \<open>once\<close> listeners.
\<close>

fun emit_error_once :: "(worker \<times> WorkerTask) list \<Rightarrow> js_error \<Rightarrow> pool \<Rightarrow> js_error + pool" where
  "emit_error_once [] err s = Inr s"
| "emit_error_once ((w, task) # ls) err s =
     (case errorHandler w task err
             (s\<lparr>errorListeners := removeListener (w, task) (errorListeners s)\<rparr>) of
        Inl e \<Rightarrow> Inl e
      | Inr s' \<Rightarrow> emit_error_once ls err s')"

definition emit_error :: "worker \<Rightarrow> js_error \<Rightarrow> pool \<Rightarrow> js_error + pool" where
  "emit_error w err s =
     emit_error_once (filter (\<lambda>l. fst l = w) (errorListeners s)) err
       (s\<lparr>console := console s @ [''Worker error:'']\<rparr>)"

text \<open>
  \<open>emit('exit', code)\<close>: the listener of \<open>createWorker\<close> (the logged line is kept
  without the number).
\<close>

definition emit_exit :: "int \<Rightarrow> pool \<Rightarrow> pool" where
  "emit_exit code s =
     (if code \<noteq> 0 then s\<lparr>console := console s @ [''Worker stopped with exit code'']\<rparr>
      else s)"

text \<open>
  A worker thread stops: the platform emits \<open>exit\<close> with the code, and the \<open>Worker\<close>
  object emits nothing after that.
\<close>

definition worker_stops :: "worker \<Rightarrow> int \<Rightarrow> pool \<Rightarrow> pool" where
  "worker_stops w code s =
     (let s1 = emit_exit code s in s1\<lparr>terminated := terminated s1 @ [w]\<rparr>)"

subsection \<open>Shutdown\<close>

text \<open>
  \<open>terminate\<close> is \<open>async\<close>: up to its \<open>await\<close> it calls \<open>worker.terminate()\<close> on every
  worker of \<open>workers\<close> and suspends; other events may run before it resumes. It
  resumes once every awaited worker has stopped, and then empties \<open>workers\<close> and
  \<open>availableWorkers\<close>. It has no statement about \<open>taskQueue\<close>.
\<close>

definition terminate_call :: "pool \<Rightarrow> pool" where
  "terminate_call s = s\<lparr>awaiting := awaiting s @ [workers s]\<rparr>"

definition terminate_resume :: "pool \<Rightarrow> pool" where
  "terminate_resume s =
     (case awaiting s of
        [] \<Rightarrow> s
      | ws # rest \<Rightarrow>
          s\<lparr>awaiting := rest, terminated := terminated s @ ws,
            workers := [], availableWorkers := []\<rparr>)"

text \<open>
  \<open>terminate\<close> with nothing running between the call and its completion (the call that
  completes is this one when no other call is suspended).
\<close>

definition terminate :: "pool \<Rightarrow> pool" where
  "terminate s = terminate_resume (terminate_call s)"

subsection \<open>Runs of the pool\<close>

text \<open>
  What can happen to a pool: a caller submits, a live worker emits \<open>message\<close>,
  \<open>error\<close> or \<open>exit\<close>, a worker thread throws an uncaught exception, a caller calls
  \<open>terminate\<close>, a suspended \<open>terminate\<close> resumes.
  \<open>Inl\<close> is an exception that leaves an event listener: nothing catches it.

  \<open>WorkerError\<close> and \<open>WorkerExit\<close> are the bare events, with the worker left as it
  was: they give the workers more freedom than the platform does. \<open>WorkerCrash\<close> is what
  the platform does when the code of a worker throws an uncaught exception: the
  \<open>Worker\<close> object emits \<open>error\<close> with the exception, the thread is stopped, and
  \<open>exit\<close> is emitted with code 1.
\<close>

datatype event =
    RunTask payload
  | WorkerMessage worker result
  | WorkerError worker js_error
  | WorkerExit worker int
  | WorkerCrash worker js_error
  | Terminate
  | TerminateResume

definition live :: "pool \<Rightarrow> worker \<Rightarrow> bool" where
  "live s w = (w < spawned s \<and> w \<notin> set (terminated s))"

fun step :: "event \<Rightarrow> pool \<Rightarrow> js_error + pool" where
  "step (RunTask d) s = Inr (snd (runTask d s))"
| "step (WorkerMessage w res) s =
     (if live s w then emit_message (filter (\<lambda>l. fst l = w) (messageListeners s)) res s
      else Inr s)"
| "step (WorkerError w err) s = (if live s w then emit_error w err s else Inr s)"
| "step (WorkerExit w code) s = (if live s w then Inr (emit_exit code s) else Inr s)"
| "step (WorkerCrash w err) s =
     (if live s w then
        (case emit_error w err s of
           Inl x \<Rightarrow> Inl x
         | Inr s1 \<Rightarrow> Inr (worker_stops w 1 s1))
      else Inr s)"
| "step Terminate s = Inr (terminate_call s)"
| "step TerminateResume s = Inr (terminate_resume s)"

fun run :: "event list \<Rightarrow> pool \<Rightarrow> js_error + pool" where
  "run [] s = Inr s"
| "run (e # es) s = (case step e s of Inl x \<Rightarrow> Inl x | Inr s' \<Rightarrow> run es s')"

definition pool_run :: "string \<Rightarrow> int option \<Rightarrow> event list \<Rightarrow> js_error + pool" where
  "pool_run script sz es =
     (case WorkerPool_new script sz of Inl x \<Rightarrow> Inl x | Inr s \<Rightarrow> run es s)"

section \<open>The worker unit of \<open>src/server/src/workers/crypto.worker.ts\<close>\<close>

text \<open>
  The handler calls \<open>simulateHeavyEncryption\<close>, which is imported from
  \<open>../utils/crypto\<close> and is not part of the sources at hand: what one call of it does is
  a parameter. It returns, or it throws a value that is an \<open>Error\<close> with a message or
  is something else.
\<close>

datatype thrown = ThrownError string | ThrownOther

datatype heavy = Returns | Throws thrown

text \<open>\<open>error instanceof Error ? error.message : 'Unknown error'\<close>.\<close>

definition description :: "thrown \<Rightarrow> string" where
  "description x = (case x of ThrownError m \<Rightarrow> m | ThrownOther \<Rightarrow> ''Unknown error'')"

text \<open>
  The two blocks of the \<open>try\<close> statement, on the list of messages posted to the parent
  so far. \<open>Inl\<close> is an exception that leaves the block.
\<close>

definition try_block :: "heavy \<Rightarrow> result list \<Rightarrow> thrown + result list" where
  "try_block h out =
     (case h of
        Throws x \<Rightarrow> Inl x
      | Returns \<Rightarrow>
          Inr (out @ [\<lparr>success = True, error = None,
                       message = Some ''Vitals encrypted successfully''\<rparr>]))"

definition catch_block :: "thrown \<Rightarrow> result list \<Rightarrow> thrown + result list" where
  "catch_block x out =
     Inr (out @ [\<lparr>success = False, error = Some (description x), message = None\<rparr>])"

text \<open>
  The listener \<open>parentPort.on('message', ...)\<close>, for one payload. An exception that
  left it would be uncaught in the worker thread and stop the worker.
\<close>

definition on_message :: "heavy \<Rightarrow> payload \<Rightarrow> result list \<Rightarrow> thrown + result list" where
  "on_message h d out =
     (case try_block h out of Inl x \<Rightarrow> catch_block x out | Inr out' \<Rightarrow> Inr out')"

text \<open>The unit over a sequence of payloads, each with what the heavy call does for it.\<close>

fun serve :: "(heavy \<times> payload) list \<Rightarrow> result list \<Rightarrow> thrown + result list" where
  "serve [] out = Inr out"
| "serve ((h, d) # rest) out =
     (case on_message h d out of Inl x \<Rightarrow> Inl x | Inr out' \<Rightarrow> serve rest out')"

section \<open>Derived forms\<close>

text \<open>
  The definitions below are not code of the repository: they name the states that the
  lemmas of the next section prove the code to reach.
\<close>

text \<open>One call of \<open>resolve\<close> or \<open>reject\<close> of a task.\<close>

definition settle_with :: "WorkerTask \<Rightarrow> outcome \<Rightarrow> pool \<Rightarrow> pool" where
  "settle_with task out s = s\<lparr>settled := settled s @ [(promise task, out)]\<rparr>"

text \<open>What \<open>messageHandler\<close> settles its task with.\<close>

definition message_outcome :: "result \<Rightarrow> outcome" where
  "message_outcome res =
     (if success res then Fulfilled res
      else Rejected (Error (or_else (error res) ''Task failed'')))"

text \<open>
  The pool after a handler of worker \<open>w\<close> has detached its listeners, pushed \<open>w\<close>
  and drained the head of the queue, before it settles its task.
\<close>

definition after_completion :: "worker \<Rightarrow> pool \<Rightarrow> pool" where
  "after_completion w s =
     (if taskQueue s = [] then
        s\<lparr>messageListeners := filter (\<lambda>l. fst l \<noteq> w) (messageListeners s),
          errorListeners := filter (\<lambda>l. fst l \<noteq> w) (errorListeners s),
          availableWorkers := availableWorkers s @ [w]\<rparr>
      else
        s\<lparr>messageListeners :=
            filter (\<lambda>l. fst l \<noteq> w) (messageListeners s) @ [(w, hd (taskQueue s))],
          errorListeners :=
            filter (\<lambda>l. fst l \<noteq> w) (errorListeners s) @ [(w, hd (taskQueue s))],
          taskQueue := tl (taskQueue s),
          posted := posted s @ [(w, hd (taskQueue s))]\<rparr>)"

text \<open>
  The busy workers: those that carry the completion listener of a task, that is, those
  a task has been dispatched to and that have not come back.
\<close>

definition busy :: "pool \<Rightarrow> worker list" where
  "busy s = remdups (map fst (messageListeners s))"

text \<open>
  The promises of the tasks in flight, of the tasks posted so far, of the tasks in the
  queue, and of the calls of \<open>resolve\<close> and \<open>reject\<close> made so far.
\<close>

definition pending_ids :: "pool \<Rightarrow> promise_id list" where
  "pending_ids s = map (\<lambda>l. promise (snd l)) (messageListeners s)"

definition posted_ids :: "pool \<Rightarrow> promise_id list" where
  "posted_ids s = map (\<lambda>l. promise (snd l)) (posted s)"

definition queued_ids :: "pool \<Rightarrow> promise_id list" where
  "queued_ids s = map promise (taskQueue s)"

definition settled_ids :: "pool \<Rightarrow> promise_id list" where
  "settled_ids s = map fst (settled s)"

text \<open>
  The invariant of the pool, in four parts. First the lists of the pool: every task in
  flight has both of its listeners attached, a worker has at most one task in flight, an
  available worker has none, and tasks wait only while no worker is available.
\<close>

definition consistent :: "pool \<Rightarrow> bool" where
  "consistent s \<longleftrightarrow>
     errorListeners s = messageListeners s \<and>
     distinct (map fst (messageListeners s)) \<and>
     distinct (availableWorkers s) \<and>
     (\<forall>l \<in> set (messageListeners s). fst l \<notin> set (availableWorkers s)) \<and>
     (taskQueue s \<noteq> [] \<longrightarrow> availableWorkers s = [])"

text \<open>Tasks are posted in the order of submission, and the queue holds the rest.\<close>

definition in_order :: "pool \<Rightarrow> bool" where
  "in_order s \<longleftrightarrow> posted_ids s @ queued_ids s = [0 ..< promises s]"

text \<open>
  Tasks in flight are distinct posted tasks; settled promises are distinct, belong to
  posted tasks and are no longer in flight.
\<close>

definition once :: "pool \<Rightarrow> bool" where
  "once s \<longleftrightarrow>
     distinct (pending_ids s) \<and>
     set (pending_ids s) \<subseteq> set (posted_ids s) \<and>
     distinct (settled_ids s) \<and>
     set (settled_ids s) \<subseteq> set (posted_ids s) \<and>
     set (settled_ids s) \<inter> set (pending_ids s) = {}"

text \<open>
  Every worker the pool refers to exists; a worker that is not in \<open>workers\<close> any more
  has stopped, and so will every worker once a suspended \<open>terminate\<close> resumes; the
  pool created as many workers as its size asks for.
\<close>

definition accounted :: "pool \<Rightarrow> bool" where
  "accounted s \<longleftrightarrow>
     (\<forall>w \<in> set (availableWorkers s). w < spawned s) \<and>
     (\<forall>l \<in> set (messageListeners s). fst l < spawned s) \<and>
     (\<forall>ws \<in> set (awaiting s). \<forall>w \<in> {..< spawned s}. w \<in> set ws \<union> set (terminated s)) \<and>
     (\<forall>w \<in> {..< spawned s}. w \<in> set (workers s) \<union> set (terminated s)) \<and>
     nat (poolSize s) = spawned s"

text \<open>Before a shutdown has completed: every worker is available or has a task in flight.\<close>

definition running :: "pool \<Rightarrow> bool" where
  "running s \<longleftrightarrow>
     workers s = [0 ..< spawned s] \<and>
     (\<forall>w \<in> {..< spawned s}.
        w \<in> set (availableWorkers s) \<or> w \<in> set (map fst (messageListeners s)))"

text \<open>After a shutdown has completed: no worker is available and every worker has stopped.\<close>

definition stopped :: "pool \<Rightarrow> bool" where
  "stopped s \<longleftrightarrow>
     availableWorkers s = [] \<and> (\<forall>w \<in> {..< spawned s}. w \<in> set (terminated s))"

definition invariant :: "pool \<Rightarrow> bool" where
  "invariant s \<longleftrightarrow> consistent s \<and> in_order s \<and> once s \<and> accounted s"

text \<open>The success message of the worker unit, used in the examples.\<close>

definition ok :: result where
  "ok = \<lparr>success = True, error = None, message = Some ''Vitals encrypted successfully''\<rparr>"

section \<open>Properties\<close>

subsection \<open>Construction\<close>

declare initializePool_loop.simps [simp del]

lemma initializePool_loop_eq:
  "initializePool_loop i s =
     s\<lparr>workers := workers s @ [spawned s ..< spawned s + nat (poolSize s - i)],
       availableWorkers := availableWorkers s @ [spawned s ..< spawned s + nat (poolSize s - i)],
       spawned := spawned s + nat (poolSize s - i)\<rparr>"
proof (induction i s rule: initializePool_loop.induct)
  case (1 i s)
  show ?case
  proof (cases "i < poolSize s")
    case False
    then show ?thesis
      by (subst initializePool_loop.simps) simp
  next
    case True
    then have n: "nat (poolSize s - i) = Suc (nat (poolSize s - (i + 1)))"
      by simp
    have "initializePool_loop i s =
        initializePool_loop (i + 1)
          (s\<lparr>spawned := Suc (spawned s), workers := workers s @ [spawned s],
             availableWorkers := availableWorkers s @ [spawned s]\<rparr>)"
      using True by (subst initializePool_loop.simps) (simp add: createWorker_def)
    also have "\<dots> = s\<lparr>workers := workers s @ [spawned s ..< spawned s + nat (poolSize s - i)],
       availableWorkers := availableWorkers s @ [spawned s ..< spawned s + nat (poolSize s - i)],
       spawned := spawned s + nat (poolSize s - i)\<rparr>"
      using True "1.IH" [OF True, of "spawned s" "s\<lparr>spawned := Suc (spawned s)\<rparr>"]
      by (simp add: createWorker_def n upt_conv_Cons del: upt_Suc)
    finally show ?thesis .
  qed
qed

lemma WorkerPool_new_eq:
  "WorkerPool_new script sz =
     Inr (fresh\<lparr>workerScript := script,
               poolSize := poolSize_arg sz,
               workers := [0 ..< nat (poolSize_arg sz)],
               availableWorkers := [0 ..< nat (poolSize_arg sz)],
               spawned := nat (poolSize_arg sz)\<rparr>)"
  by (simp add: WorkerPool_new_def initializePool_def initializePool_loop_eq fresh_def poolSize_arg_def)

subsection \<open>Listeners and handlers\<close>

lemma removeListener_distinct: "distinct xs \<Longrightarrow> removeListener x xs = filter (\<lambda>y. y \<noteq> x) xs"
proof -
  assume d: "distinct xs"
  then have "remove1 x (rev xs) = removeAll x (rev xs)"
    by (simp add: distinct_remove1_removeAll)
  then show ?thesis
    by (simp add: removeListener_def removeAll_filter_not_eq rev_filter) (metis)
qed

lemma removeListener_absent: "x \<notin> set xs \<Longrightarrow> removeListener x xs = xs"
  by (simp add: removeListener_def remove1_idem)

lemma filter_worker_single:
  "distinct (map fst xs) \<Longrightarrow> (w, t) \<in> set xs \<Longrightarrow> filter (\<lambda>l. fst l = w) xs = [(w, t)]"
proof (induction xs)
  case Nil
  then show ?case by simp
next
  case (Cons x xs)
  show ?case
  proof (cases "x = (w, t)")
    case True
    with Cons.prems have "\<forall>l \<in> set xs. fst l \<noteq> w" by force
    then have "filter (\<lambda>l. fst l = w) xs = []" by (simp add: filter_empty_conv)
    with True show ?thesis by simp
  next
    case False
    with Cons.prems have in_xs: "(w, t) \<in> set xs" by simp
    then have "w \<in> fst ` set xs" by force
    with Cons.prems have "fst x \<noteq> w" by auto
    with Cons in_xs show ?thesis by simp
  qed
qed

lemma filter_worker_none:
  "w \<notin> fst ` set xs \<Longrightarrow> filter (\<lambda>l. fst l = w) xs = []"
  by (auto simp: filter_empty_conv)

lemma removeListener_worker:
  assumes "distinct (map fst xs)" and "(w, t) \<in> set xs"
  shows "removeListener (w, t) xs = filter (\<lambda>l. fst l \<noteq> w) xs"
proof -
  have d: "distinct xs" using assms(1) by (simp add: distinct_map)
  have "\<And>l. l \<in> set xs \<Longrightarrow> (l \<noteq> (w, t)) = (fst l \<noteq> w)"
    using assms by (metis eq_key_imp_eq_value fst_conv prod.collapse)
  then have "filter (\<lambda>y. y \<noteq> (w, t)) xs = filter (\<lambda>l. fst l \<noteq> w) xs"
    by (intro filter_cong refl)
  with d show ?thesis by (simp add: removeListener_distinct)
qed

lemma removeListener_filtered:
  "removeListener (w, t) (filter (\<lambda>l. fst l \<noteq> w) xs) = filter (\<lambda>l. fst l \<noteq> w) xs"
  by (rule removeListener_absent) simp

lemma executeTask_Inr:
  "availableWorkers s \<noteq> [] \<Longrightarrow>
   executeTask task s =
     Inr (s\<lparr>availableWorkers := butlast (availableWorkers s),
            messageListeners := messageListeners s @ [(last (availableWorkers s), task)],
            errorListeners := errorListeners s @ [(last (availableWorkers s), task)],
            posted := posted s @ [(last (availableWorkers s), task)]\<rparr>)"
  by (simp add: executeTask_def Let_def)

lemma fire_message:
  assumes eq: "errorListeners s = messageListeners s"
    and d: "distinct (map fst (messageListeners s))"
    and m: "(w, t) \<in> set (messageListeners s)"
  shows "emit_message (filter (\<lambda>l. fst l = w) (messageListeners s)) res s =
     Inr (settle_with t (message_outcome res) (after_completion w s))"
proof -
  have r: "removeListener (w, t) (messageListeners s) = filter (\<lambda>l. fst l \<noteq> w) (messageListeners s)"
    using d m by (rule removeListener_worker)
  have r': "removeListener (w, t) (errorListeners s) = filter (\<lambda>l. fst l \<noteq> w) (errorListeners s)"
    using r eq by simp
  show ?thesis
    by (simp add: filter_worker_single [OF d m] messageHandler_def r r' removeListener_filtered
        executeTask_Inr after_completion_def settle_with_def message_outcome_def resolve_def
        reject_def Let_def)
qed

lemma fire_error:
  assumes eq: "errorListeners s = messageListeners s"
    and d: "distinct (map fst (messageListeners s))"
    and m: "(w, t) \<in> set (errorListeners s)"
  shows "emit_error w err s =
     Inr (settle_with t (Rejected err)
            (after_completion w (s\<lparr>console := console s @ [''Worker error:'']\<rparr>)))"
proof -
  have d': "distinct (map fst (errorListeners s))" using d eq by simp
  have r': "removeListener (w, t) (errorListeners s) = filter (\<lambda>l. fst l \<noteq> w) (errorListeners s)"
    using d' m by (rule removeListener_worker)
  have r: "removeListener (w, t) (messageListeners s) = filter (\<lambda>l. fst l \<noteq> w) (messageListeners s)"
    using r' eq by simp
  show ?thesis
    by (simp add: emit_error_def filter_worker_single [OF d' m] errorHandler_def r r'
        removeListener_filtered executeTask_Inr after_completion_def settle_with_def
        reject_def Let_def)
qed

lemma runTask_eq:
  "runTask d s =
     (promises s,
      if availableWorkers s \<noteq> [] then
        s\<lparr>promises := Suc (promises s),
          availableWorkers := butlast (availableWorkers s),
          messageListeners :=
            messageListeners s @ [(last (availableWorkers s), \<lparr>data = d, promise = promises s\<rparr>)],
          errorListeners :=
            errorListeners s @ [(last (availableWorkers s), \<lparr>data = d, promise = promises s\<rparr>)],
          posted := posted s @ [(last (availableWorkers s), \<lparr>data = d, promise = promises s\<rparr>)]\<rparr>
      else
        s\<lparr>promises := Suc (promises s),
          taskQueue := taskQueue s @ [\<lparr>data = d, promise = promises s\<rparr>]\<rparr>)"
  by (simp add: runTask_def executor_def executeTask_Inr Let_def)

lemma consistent_runTask: "consistent s \<Longrightarrow> consistent (snd (runTask d s))"
  unfolding consistent_def runTask_eq
  by (cases "availableWorkers s" rule: rev_cases) auto

lemma in_order_runTask: "consistent s \<Longrightarrow> in_order s \<Longrightarrow> in_order (snd (runTask d s))"
  unfolding consistent_def in_order_def runTask_eq posted_ids_def queued_ids_def
  by auto

lemma fresh_promise: "in_order s \<Longrightarrow> promises s \<notin> set (posted_ids s)"
proof
  assume o: "in_order s" and "promises s \<in> set (posted_ids s)"
  then have "promises s \<in> set (posted_ids s @ queued_ids s)" by simp
  then show False using o unfolding in_order_def by simp
qed

lemma once_dispatch:
  assumes "once s" and "p \<notin> set (posted_ids s)"
    and "pending_ids s' = pending_ids s @ [p]" and "posted_ids s' = posted_ids s @ [p]"
    and "settled_ids s' = settled_ids s"
  shows "once s'"
  using assms unfolding once_def by auto

lemma once_unchanged:
  assumes "once s"
    and "pending_ids s' = pending_ids s" and "set (posted_ids s) \<subseteq> set (posted_ids s')"
    and "settled_ids s' = settled_ids s"
  shows "once s'"
  using assms unfolding once_def by auto

lemma once_runTask:
  assumes o: "in_order s" and a: "once s"
  shows "once (snd (runTask d s))"
proof (cases "availableWorkers s = []")
  case True
  show ?thesis
    by (rule once_unchanged [OF a])
       (simp_all add: True runTask_eq pending_ids_def posted_ids_def settled_ids_def)
next
  case False
  show ?thesis
    by (rule once_dispatch [OF a fresh_promise [OF o]])
       (simp_all add: False runTask_eq pending_ids_def posted_ids_def settled_ids_def)
qed

lemma accounted_runTask: "accounted s \<Longrightarrow> accounted (snd (runTask d s))"
  unfolding accounted_def runTask_eq
  by (cases "availableWorkers s" rule: rev_cases) auto

lemma invariant_runTask: "invariant s \<Longrightarrow> invariant (snd (runTask d s))"
  unfolding invariant_def
  by (simp add: consistent_runTask in_order_runTask once_runTask accounted_runTask)

lemma after_completion_fields:
  "availableWorkers (after_completion w s) =
     (if taskQueue s = [] then availableWorkers s @ [w] else availableWorkers s)"
  "messageListeners (after_completion w s) =
     filter (\<lambda>l. fst l \<noteq> w) (messageListeners s) @
       (if taskQueue s = [] then [] else [(w, hd (taskQueue s))])"
  "errorListeners (after_completion w s) =
     filter (\<lambda>l. fst l \<noteq> w) (errorListeners s) @
       (if taskQueue s = [] then [] else [(w, hd (taskQueue s))])"
  "taskQueue (after_completion w s) = tl (taskQueue s)"
  "posted (after_completion w s) =
     posted s @ (if taskQueue s = [] then [] else [(w, hd (taskQueue s))])"
  "settled (after_completion w s) = settled s"
  "promises (after_completion w s) = promises s"
  "spawned (after_completion w s) = spawned s"
  "workers (after_completion w s) = workers s"
  "awaiting (after_completion w s) = awaiting s"
  "terminated (after_completion w s) = terminated s"
  "poolSize (after_completion w s) = poolSize s"
  "console (after_completion w s) = console s"
  "workerScript (after_completion w s) = workerScript s"
  by (simp_all add: after_completion_def)

lemma settle_with_fields:
  "availableWorkers (settle_with t out s) = availableWorkers s"
  "messageListeners (settle_with t out s) = messageListeners s"
  "errorListeners (settle_with t out s) = errorListeners s"
  "taskQueue (settle_with t out s) = taskQueue s"
  "posted (settle_with t out s) = posted s"
  "settled (settle_with t out s) = settled s @ [(promise t, out)]"
  "promises (settle_with t out s) = promises s"
  "spawned (settle_with t out s) = spawned s"
  "workers (settle_with t out s) = workers s"
  "awaiting (settle_with t out s) = awaiting s"
  "terminated (settle_with t out s) = terminated s"
  "poolSize (settle_with t out s) = poolSize s"
  "console (settle_with t out s) = console s"
  "workerScript (settle_with t out s) = workerScript s"
  by (simp_all add: settle_with_def)

lemma consistent_completion:
  assumes c: "consistent s" and m: "(w, t) \<in> set (messageListeners s)"
  shows "consistent (settle_with t out (after_completion w s))"
proof -
  have nw: "w \<notin> set (availableWorkers s)" using c m unfolding consistent_def by force
  have d: "distinct (map fst (filter (\<lambda>l. fst l \<noteq> w) (messageListeners s)))"
    using c by (auto simp: consistent_def intro: distinct_map_filter)
  show ?thesis
    using c nw d unfolding consistent_def
    by (auto simp: after_completion_fields settle_with_fields)
qed

lemma in_order_completion:
  assumes "in_order s"
  shows "in_order (settle_with t out (after_completion w s))"
  using assms unfolding in_order_def posted_ids_def queued_ids_def
  by (cases "taskQueue s") (simp_all add: after_completion_fields settle_with_fields)

lemma accounted_completion:
  assumes "accounted s" and "(w, t) \<in> set (messageListeners s)"
  shows "accounted (settle_with t out (after_completion w s))"
proof -
  have "w < spawned s" using assms unfolding accounted_def by force
  then show ?thesis
    using assms(1) unfolding accounted_def
    by (auto simp: after_completion_fields settle_with_fields)
qed

lemma once_step:
  assumes "once s" and "p \<in> set (pending_ids s)"
    and "pending_ids s' = keep @ new" and "posted_ids s' = posted_ids s @ new"
    and "settled_ids s' = settled_ids s @ [p]"
    and "distinct keep" and "set keep \<subseteq> set (pending_ids s)" and "p \<notin> set keep"
    and "new = [] \<or> (\<exists>q. new = [q] \<and> q \<notin> set (posted_ids s))"
  shows "once s'"
  using assms unfolding once_def by auto

lemma head_not_posted:
  assumes "in_order s" and "taskQueue s \<noteq> []"
  shows "promise (hd (taskQueue s)) \<notin> set (posted_ids s)"
proof -
  have "distinct (posted_ids s @ queued_ids s)"
    using assms(1) unfolding in_order_def by simp
  moreover have "promise (hd (taskQueue s)) \<in> set (queued_ids s)"
    using assms(2) by (simp add: queued_ids_def)
  ultimately show ?thesis by auto
qed

lemma once_completion:
  assumes a: "once s" and o: "in_order s" and m: "(w, t) \<in> set (messageListeners s)"
  shows "once (settle_with t out (after_completion w s))"
proof -
  let ?pid = "\<lambda>l::worker \<times> WorkerTask. promise (snd l)"
  let ?keep = "map ?pid (filter (\<lambda>l. fst l \<noteq> w) (messageListeners s))"
  let ?new = "if taskQueue s = [] then [] else [promise (hd (taskQueue s))]"
  have d: "distinct (map ?pid (messageListeners s))"
    using a unfolding once_def pending_ids_def by simp
  have p: "promise t \<in> set (pending_ids s)"
    using m unfolding pending_ids_def by force
  have k1: "distinct ?keep" using d by (rule distinct_map_filter)
  have k2: "set ?keep \<subseteq> set (pending_ids s)" unfolding pending_ids_def by auto
  have k3: "promise t \<notin> set ?keep"
  proof
    assume "promise t \<in> set ?keep"
    then obtain l where l: "l \<in> set (messageListeners s)" "fst l \<noteq> w" "?pid l = promise t"
      by auto
    have "inj_on ?pid (set (messageListeners s))" using d by (simp add: distinct_map)
    from inj_onD [OF this _ l(1) m] l(3) have "l = (w, t)" by simp
    with l(2) show False by simp
  qed
  have n: "?new = [] \<or> (\<exists>q. ?new = [q] \<and> q \<notin> set (posted_ids s))"
    using head_not_posted [OF o] by auto
  show ?thesis
    by (rule once_step [OF a p _ _ _ k1 k2 k3 n])
       (simp_all add: pending_ids_def posted_ids_def settled_ids_def after_completion_fields
          settle_with_fields)
qed

lemma invariant_completion:
  "invariant s \<Longrightarrow> (w, t) \<in> set (messageListeners s) \<Longrightarrow>
   invariant (settle_with t out (after_completion w s))"
  unfolding invariant_def
  by (simp add: consistent_completion in_order_completion once_completion accounted_completion)

lemma invariant_console: "invariant (s\<lparr>console := c\<rparr>) = invariant s"
  by (simp add: invariant_def consistent_def in_order_def once_def accounted_def
      pending_ids_def posted_ids_def queued_ids_def settled_ids_def)

lemma invariant_terminate_call: "invariant s \<Longrightarrow> invariant (terminate_call s)"
proof -
  assume i: "invariant s"
  have "consistent (terminate_call s) = consistent s"
    by (simp add: consistent_def terminate_call_def)
  moreover have "in_order (terminate_call s) = in_order s"
    by (simp add: in_order_def posted_ids_def queued_ids_def terminate_call_def)
  moreover have "once (terminate_call s) = once s"
    by (simp add: once_def pending_ids_def posted_ids_def settled_ids_def terminate_call_def)
  moreover have "accounted s \<Longrightarrow> accounted (terminate_call s)"
    by (simp add: accounted_def terminate_call_def)
  ultimately show ?thesis using i by (simp add: invariant_def)
qed

lemma invariant_terminate_resume: "invariant s \<Longrightarrow> invariant (terminate_resume s)"
proof (cases "awaiting s")
  case Nil
  then show "invariant s \<Longrightarrow> invariant (terminate_resume s)"
    by (simp add: terminate_resume_def)
next
  case (Cons ws rest)
  assume i: "invariant s"
  let ?s' = "s\<lparr>awaiting := rest, terminated := terminated s @ ws, workers := [],
               availableWorkers := []\<rparr>"
  have r: "terminate_resume s = ?s'" by (simp add: terminate_resume_def Cons)
  have "consistent s \<Longrightarrow> consistent ?s'"
    by (simp add: consistent_def)
  moreover have "in_order ?s' = in_order s"
    by (simp add: in_order_def posted_ids_def queued_ids_def)
  moreover have "once ?s' = once s"
    by (simp add: once_def pending_ids_def posted_ids_def settled_ids_def)
  moreover have "accounted s \<Longrightarrow> accounted ?s'"
    unfolding accounted_def using Cons by auto
  ultimately show "invariant (terminate_resume s)" using i by (simp add: invariant_def r)
qed

lemma messageHandler_Inr: "\<exists>s'. messageHandler w t res s = Inr s'"
  by (simp add: messageHandler_def executeTask_Inr Let_def)

lemma errorHandler_Inr: "\<exists>s'. errorHandler w t err s = Inr s'"
  by (simp add: errorHandler_def executeTask_Inr Let_def)

lemma emit_message_Inr: "\<exists>s'. emit_message ls res s = Inr s'"
proof (induction ls arbitrary: s)
  case Nil
  show ?case by simp
next
  case (Cons l ls)
  obtain w t where l: "l = (w, t)" by (cases l)
  obtain s1 where "messageHandler w t res
      (s\<lparr>messageListeners := removeListener (w, t) (messageListeners s)\<rparr>) = Inr s1"
    using messageHandler_Inr by blast
  with Cons.IH [of s1] l show ?case by simp
qed

lemma emit_error_once_Inr: "\<exists>s'. emit_error_once ls err s = Inr s'"
proof (induction ls arbitrary: s)
  case Nil
  show ?case by simp
next
  case (Cons l ls)
  obtain w t where l: "l = (w, t)" by (cases l)
  obtain s1 where "errorHandler w t err
      (s\<lparr>errorListeners := removeListener (w, t) (errorListeners s)\<rparr>) = Inr s1"
    using errorHandler_Inr by blast
  with Cons.IH [of s1] l show ?case by simp
qed

lemma emit_error_Inr: "\<exists>s'. emit_error w err s = Inr s'"
  by (simp add: emit_error_def emit_error_once_Inr)

lemma step_Inr: "\<exists>s'. step e s = Inr s'"
proof (cases e)
  case (WorkerCrash w err)
  obtain s1 where "emit_error w err s = Inr s1" using emit_error_Inr by blast
  with WorkerCrash show ?thesis by simp
qed (simp_all add: emit_message_Inr emit_error_Inr)

text \<open>A crash is the \<open>error\<close> event followed by the stop of the worker.\<close>

lemma step_crash:
  "step (WorkerCrash w err) s =
     (case step (WorkerError w err) s of
        Inl x \<Rightarrow> Inl x
      | Inr s1 \<Rightarrow> Inr (if live s w then worker_stops w 1 s1 else s1))"
  by (simp split: sum.splits)

lemma worker_stops_fields:
  "availableWorkers (worker_stops w code s) = availableWorkers s"
  "messageListeners (worker_stops w code s) = messageListeners s"
  "errorListeners (worker_stops w code s) = errorListeners s"
  "taskQueue (worker_stops w code s) = taskQueue s"
  "posted (worker_stops w code s) = posted s"
  "settled (worker_stops w code s) = settled s"
  "promises (worker_stops w code s) = promises s"
  "spawned (worker_stops w code s) = spawned s"
  "workers (worker_stops w code s) = workers s"
  "awaiting (worker_stops w code s) = awaiting s"
  "terminated (worker_stops w code s) = terminated s @ [w]"
  "poolSize (worker_stops w code s) = poolSize s"
  "workerScript (worker_stops w code s) = workerScript s"
  by (simp_all add: worker_stops_def emit_exit_def Let_def)

lemma run_Inr: "\<exists>s'. run es s = Inr s'"
proof (induction es arbitrary: s)
  case Nil
  show ?case by simp
next
  case (Cons e es)
  obtain s1 where "step e s = Inr s1" using step_Inr by blast
  with Cons.IH [of s1] show ?case by simp
qed

text \<open>What an event does to a pool that satisfies the invariant.\<close>

lemma step_message:
  assumes "consistent s"
  shows "step (WorkerMessage w res) s =
     Inr (if live s w \<and> w \<in> set (map fst (messageListeners s))
          then settle_with (the (map_of (messageListeners s) w)) (message_outcome res)
                 (after_completion w s)
          else s)"
proof (cases "live s w \<and> w \<in> set (map fst (messageListeners s))")
  case True
  then obtain t where m: "(w, t) \<in> set (messageListeners s)" by auto
  have d: "distinct (map fst (messageListeners s))"
    and eq: "errorListeners s = messageListeners s"
    using assms by (simp_all add: consistent_def)
  have "map_of (messageListeners s) w = Some t" using d m by simp
  with True fire_message [OF eq d m] show ?thesis by simp
next
  case False
  then show ?thesis by (auto simp: filter_worker_none)
qed

lemma step_error:
  assumes "consistent s"
  shows "step (WorkerError w err) s =
     Inr (if live s w then
            (if w \<in> set (map fst (messageListeners s))
             then settle_with (the (map_of (messageListeners s) w)) (Rejected err)
                    (after_completion w (s\<lparr>console := console s @ [''Worker error:'']\<rparr>))
             else s\<lparr>console := console s @ [''Worker error:'']\<rparr>)
          else s)"
proof (cases "live s w \<and> w \<in> set (map fst (messageListeners s))")
  case True
  then obtain t where m: "(w, t) \<in> set (messageListeners s)" by auto
  have d: "distinct (map fst (messageListeners s))"
    and eq: "errorListeners s = messageListeners s"
    using assms by (simp_all add: consistent_def)
  have m': "(w, t) \<in> set (errorListeners s)" using m eq by simp
  have "map_of (messageListeners s) w = Some t" using d m by simp
  with True fire_error [OF eq d m'] show ?thesis by simp
next
  case False
  have eq: "errorListeners s = messageListeners s"
    using assms by (simp add: consistent_def)
  from False show ?thesis by (auto simp: emit_error_def eq filter_worker_none)
qed

lemma invariant_worker_stops: "invariant s \<Longrightarrow> invariant (worker_stops w code s)"
proof -
  assume i: "invariant s"
  have "consistent (worker_stops w code s) = consistent s"
    by (simp add: consistent_def worker_stops_fields)
  moreover have "in_order (worker_stops w code s) = in_order s"
    by (simp add: in_order_def posted_ids_def queued_ids_def worker_stops_fields)
  moreover have "once (worker_stops w code s) = once s"
    by (simp add: once_def pending_ids_def posted_ids_def settled_ids_def worker_stops_fields)
  moreover have "accounted s \<Longrightarrow> accounted (worker_stops w code s)"
    by (simp add: accounted_def worker_stops_fields)
  ultimately show ?thesis using i by (simp add: invariant_def)
qed

lemma step_error_invariant:
  assumes i: "invariant s" and st: "step (WorkerError w err) s = Inr s'"
  shows "invariant s'"
proof -
  have c: "consistent s" using i by (simp add: invariant_def)
  let ?s = "s\<lparr>console := console s @ [''Worker error:'']\<rparr>"
  have i': "invariant ?s" using i by (simp add: invariant_console)
  show ?thesis
  proof (cases "live s w \<and> w \<in> set (map fst (messageListeners s))")
    case True
    then obtain t where m: "(w, t) \<in> set (messageListeners s)" by auto
    then have m': "(w, t) \<in> set (messageListeners ?s)" by simp
    have "distinct (map fst (messageListeners s))" using c by (simp add: consistent_def)
    then have "map_of (messageListeners s) w = Some t" using m by simp
    with True st step_error [OF c, of w err] invariant_completion [OF i' m']
    show ?thesis by simp
  next
    case False
    with st step_error [OF c, of w err] i i' show ?thesis
      by (auto split: if_splits)
  qed
qed

lemma step_invariant:
  assumes i: "invariant s" and st: "step e s = Inr s'"
  shows "invariant s'"
proof (cases e)
  case (RunTask d)
  with i st show ?thesis by (auto simp: invariant_runTask)
next
  case (WorkerMessage w res)
  have c: "consistent s" using i by (simp add: invariant_def)
  show ?thesis
  proof (cases "live s w \<and> w \<in> set (map fst (messageListeners s))")
    case True
    then obtain t where m: "(w, t) \<in> set (messageListeners s)" by auto
    have "distinct (map fst (messageListeners s))" using c by (simp add: consistent_def)
    then have "map_of (messageListeners s) w = Some t" using m by simp
    with True st WorkerMessage step_message [OF c, of w res] invariant_completion [OF i m]
    show ?thesis by simp
  next
    case False
    with st WorkerMessage step_message [OF c, of w res] i show ?thesis by auto
  qed
next
  case (WorkerError w err)
  with i st show ?thesis by (auto intro: step_error_invariant)
next
  case (WorkerExit w code)
  with i st show ?thesis by (auto simp: emit_exit_def invariant_console split: if_splits)
next
  case (WorkerCrash w err)
  obtain s1 where s1: "step (WorkerError w err) s = Inr s1" using step_Inr by blast
  have i1: "invariant s1" using i s1 by (rule step_error_invariant)
  have "s' = (if live s w then worker_stops w 1 s1 else s1)"
    using st WorkerCrash s1 by (simp add: step_crash del: step.simps)
  with i1 show ?thesis by (simp add: invariant_worker_stops)
next
  case Terminate
  with i st show ?thesis by (auto simp: invariant_terminate_call)
next
  case TerminateResume
  with i st show ?thesis by (auto simp: invariant_terminate_resume)
qed

lemma run_invariant: "invariant s \<Longrightarrow> run es s = Inr s' \<Longrightarrow> invariant s'"
proof (induction es arbitrary: s)
  case Nil
  then show ?case by simp
next
  case (Cons e es)
  obtain s1 where s1: "step e s = Inr s1" using step_Inr by blast
  with Cons.prems have "invariant s1" and "run es s1 = Inr s'"
    by (auto simp: step_invariant)
  then show ?case by (rule Cons.IH)
qed

lemma invariant_new: "WorkerPool_new script sz = Inr s \<Longrightarrow> invariant s"
  by (auto simp: WorkerPool_new_eq fresh_def invariant_def consistent_def in_order_def once_def
      accounted_def pending_ids_def posted_ids_def queued_ids_def settled_ids_def)

lemma pool_run_invariant: "pool_run script sz es = Inr s \<Longrightarrow> invariant s"
  unfolding pool_run_def
  by (auto split: sum.splits dest: invariant_new run_invariant)

lemma at_most_one_call:
  "distinct (map fst xs) \<Longrightarrow> length (filter (\<lambda>c. fst c = p) xs) \<le> 1"
proof (induction xs)
  case Nil
  show ?case by simp
next
  case (Cons x xs)
  show ?case
  proof (cases "fst x = p")
    case True
    from Cons.prems have "fst x \<notin> fst ` set xs" by simp
    with True have "\<forall>c \<in> set xs. fst c \<noteq> p" by blast
    then have "filter (\<lambda>c. fst c = p) xs = []" by (simp add: filter_empty_conv)
    with True show ?thesis by simp
  next
    case False
    with Cons show ?thesis by simp
  qed
qed

lemma settlements_empty: "p \<notin> set (settled_ids s) \<Longrightarrow> settlements s p = []"
  by (auto simp: settlements_def settled_ids_def filter_empty_conv)

lemma settlements_nonempty: "settlements s p \<noteq> [] \<Longrightarrow> p \<in> set (settled_ids s)"
  using settlements_empty by blast

lemma settled_below: "in_order s \<Longrightarrow> once s \<Longrightarrow> promises s \<notin> set (settled_ids s)"
  using fresh_promise unfolding once_def by blast

subsection \<open>Capacity\<close>

lemma running_step:
  assumes i: "invariant s" and r: "running s" and st: "step e s = Inr s'"
    and e: "e \<noteq> TerminateResume"
  shows "running s'"
proof -
  have c: "consistent s" using i by (simp add: invariant_def)
  show ?thesis
  proof (cases e)
    case (RunTask d)
    with st r show ?thesis
      unfolding running_def
      by (cases "availableWorkers s" rule: rev_cases) (auto simp: runTask_eq)
  next
    case (WorkerMessage w res)
    with st r step_message [OF c, of w res] show ?thesis
      unfolding running_def
      by (auto simp: after_completion_fields settle_with_fields split: if_splits)
  next
    case (WorkerError w err)
    with st r step_error [OF c, of w err] show ?thesis
      unfolding running_def
      by (auto simp: after_completion_fields settle_with_fields split: if_splits)
  next
    case (WorkerExit w code)
    with st r show ?thesis
      unfolding running_def by (auto simp: emit_exit_def split: if_splits)
  next
    case (WorkerCrash w err)
    obtain s1 where s1: "step (WorkerError w err) s = Inr s1" using step_Inr by blast
    have "running s1"
      using s1 r step_error [OF c, of w err]
      unfolding running_def
      by (auto simp: after_completion_fields settle_with_fields split: if_splits)
    moreover have "s' = (if live s w then worker_stops w 1 s1 else s1)"
      using st WorkerCrash s1 by (simp add: step_crash del: step.simps)
    ultimately show ?thesis by (simp add: running_def worker_stops_fields)
  next
    case Terminate
    with st r show ?thesis
      unfolding running_def by (auto simp: terminate_call_def)
  next
    case TerminateResume
    with e show ?thesis by simp
  qed
qed

lemma running_run:
  "invariant s \<Longrightarrow> running s \<Longrightarrow> TerminateResume \<notin> set es \<Longrightarrow> run es s = Inr s' \<Longrightarrow>
   running s'"
proof (induction es arbitrary: s)
  case Nil
  then show ?case by simp
next
  case (Cons e es)
  obtain s1 where s1: "step e s = Inr s1" using step_Inr by blast
  have "invariant s1" using Cons.prems(1) s1 by (rule step_invariant)
  moreover have "running s1" using Cons.prems(1,2) s1 Cons.prems(3) by (auto intro: running_step)
  moreover have "TerminateResume \<notin> set es" using Cons.prems(3) by simp
  moreover have "run es s1 = Inr s'" using Cons.prems(4) s1 by simp
  ultimately show ?case by (rule Cons.IH)
qed

lemma running_new: "WorkerPool_new script sz = Inr s \<Longrightarrow> running s"
  by (auto simp: WorkerPool_new_eq fresh_def running_def)

lemma running_count:
  assumes i: "invariant s" and r: "running s"
  shows "length (availableWorkers s) + length (busy s) = spawned s"
proof -
  have d: "distinct (map fst (messageListeners s))" and da: "distinct (availableWorkers s)"
    and dis: "set (availableWorkers s) \<inter> set (map fst (messageListeners s)) = {}"
    using i by (auto simp: invariant_def consistent_def)
  have sub: "set (availableWorkers s) \<union> set (map fst (messageListeners s)) \<subseteq> {..< spawned s}"
    using i by (auto simp: invariant_def accounted_def)
  have sup: "{..< spawned s} \<subseteq> set (availableWorkers s) \<union> set (map fst (messageListeners s))"
    using r unfolding running_def by blast
  have b: "busy s = map fst (messageListeners s)" using d by (simp add: busy_def)
  have "length (availableWorkers s) + length (busy s) =
      card (set (availableWorkers s)) + card (set (map fst (messageListeners s)))"
    using d da b by (simp add: distinct_card del: set_map)
  also have "\<dots> = card (set (availableWorkers s) \<union> set (map fst (messageListeners s)))"
    using dis by (simp add: card_Un_disjoint del: set_map)
  also have "\<dots> = card {..< spawned s}"
  proof -
    have "set (availableWorkers s) \<union> set (map fst (messageListeners s)) = {..< spawned s}"
      using sub sup by blast
    then show ?thesis by (simp only:)
  qed
  finally show ?thesis by simp
qed

subsection \<open>After shutdown\<close>

lemma stopped_not_live: "stopped s \<Longrightarrow> \<not> live s w"
  by (auto simp: stopped_def live_def)

lemma stopped_step:
  assumes "stopped s" and "step e s = Inr s'"
  shows "stopped s' \<and> settled s' = settled s"
proof (cases e)
  case (RunTask d)
  with assms show ?thesis by (auto simp: stopped_def runTask_eq)
next
  case (WorkerMessage w res)
  with assms show ?thesis by (simp add: stopped_not_live)
next
  case (WorkerError w err)
  with assms show ?thesis by (simp add: stopped_not_live)
next
  case (WorkerExit w code)
  with assms show ?thesis by (simp add: stopped_not_live)
next
  case (WorkerCrash w err)
  with assms show ?thesis by (simp add: stopped_not_live)
next
  case Terminate
  with assms show ?thesis by (auto simp: stopped_def terminate_call_def)
next
  case TerminateResume
  with assms show ?thesis by (auto simp: stopped_def terminate_resume_def split: list.splits)
qed

lemma stopped_run: "stopped s \<Longrightarrow> run es s = Inr s' \<Longrightarrow> stopped s' \<and> settled s' = settled s"
proof (induction es arbitrary: s)
  case Nil
  then show ?case by simp
next
  case (Cons e es)
  obtain s1 where s1: "step e s = Inr s1" using step_Inr by blast
  with Cons.prems have a: "stopped s1 \<and> settled s1 = settled s" and b: "run es s1 = Inr s'"
    by (auto dest: stopped_step)
  from Cons.IH [OF _ b] a show ?case by simp
qed

lemma stopped_never_settles:
  "stopped s \<Longrightarrow> \<exists>s'. run es s = Inr s' \<and> stopped s' \<and> settled s' = settled s"
proof -
  assume st: "stopped s"
  obtain s' where s': "run es s = Inr s'" using run_Inr by blast
  with st stopped_run [OF st s'] show ?thesis by blast
qed

lemma stopped_resume:
  assumes "invariant s" and "awaiting s \<noteq> []"
  shows "stopped (terminate_resume s)"
  using assms
  by (cases "awaiting s")
     (auto simp: invariant_def accounted_def stopped_def terminate_resume_def)

subsection \<open>The worker unit\<close>

lemma on_message_eq:
  "on_message h d out =
     Inr (out @ [case h of
                   Returns \<Rightarrow> \<lparr>success = True, error = None,
                                message = Some ''Vitals encrypted successfully''\<rparr>
                 | Throws x \<Rightarrow> \<lparr>success = False, error = Some (description x),
                                 message = None\<rparr>])"
  by (cases h) (simp_all add: on_message_def try_block_def catch_block_def)

lemma serve_length: "\<exists>out'. serve ps out = Inr out' \<and> length out' = length out + length ps"
proof (induction ps arbitrary: out)
  case Nil
  show ?case by simp
next
  case (Cons p ps)
  obtain h d where p: "p = (h, d)" by (cases p)
  obtain r where r: "on_message h d out = Inr (out @ [r])" using on_message_eq by blast
  from Cons.IH [of "out @ [r]"] p r show ?case by auto
qed

subsection \<open>Reachable pools\<close>

lemma pool_run_invariant':
  "pool_run script sz es = Inr s \<Longrightarrow> consistent s \<and> in_order s \<and> once s \<and> accounted s"
  using pool_run_invariant unfolding invariant_def by blast

subsection \<open>Concrete runs\<close>

text \<open>A pool of one worker, two submissions, then shutdown.\<close>

lemma run_two_then_terminate:
  "pool_run ''crypto.worker.js'' (Some 1) [RunTask ''a'', RunTask ''b'', Terminate, TerminateResume] =
     Inr \<lparr>workers = [], availableWorkers = [],
          taskQueue = [\<lparr>data = ''b'', promise = 1\<rparr>],
          workerScript = ''crypto.worker.js'', poolSize = 1, spawned = 1,
          messageListeners = [(0, \<lparr>data = ''a'', promise = 0\<rparr>)],
          errorListeners = [(0, \<lparr>data = ''a'', promise = 0\<rparr>)],
          posted = [(0, \<lparr>data = ''a'', promise = 0\<rparr>)], promises = 2,
          settled = [], console = [], awaiting = [], terminated = [0]\<rparr>"
  by (simp add: pool_run_def WorkerPool_new_eq fresh_def poolSize_arg_def runTask_eq
      terminate_call_def terminate_resume_def)

text \<open>A pool of one worker, two submissions, and three messages of the worker.\<close>

lemma run_two_messages:
  "pool_run ''crypto.worker.js'' (Some 1)
     [RunTask ''a'', RunTask ''b'', WorkerMessage 0 ok, WorkerMessage 0 ok, WorkerMessage 0 ok] =
     Inr \<lparr>workers = [0], availableWorkers = [0], taskQueue = [],
          workerScript = ''crypto.worker.js'', poolSize = 1, spawned = 1,
          messageListeners = [], errorListeners = [],
          posted = [(0, \<lparr>data = ''a'', promise = 0\<rparr>), (0, \<lparr>data = ''b'', promise = 1\<rparr>)],
          promises = 2, settled = [(0, Fulfilled ok), (1, Fulfilled ok)],
          console = [], awaiting = [], terminated = []\<rparr>"
  by (simp add: pool_run_def WorkerPool_new_eq fresh_def poolSize_arg_def runTask_eq live_def
      messageHandler_def removeListener_def executeTask_def resolve_def reject_def ok_def Let_def)

text \<open>A pool of one worker and two submissions: the second one waits.\<close>

lemma run_two_tasks:
  "pool_run ''crypto.worker.js'' (Some 1) [RunTask ''a'', RunTask ''b''] =
     Inr \<lparr>workers = [0], availableWorkers = [],
          taskQueue = [\<lparr>data = ''b'', promise = 1\<rparr>],
          workerScript = ''crypto.worker.js'', poolSize = 1, spawned = 1,
          messageListeners = [(0, \<lparr>data = ''a'', promise = 0\<rparr>)],
          errorListeners = [(0, \<lparr>data = ''a'', promise = 0\<rparr>)],
          posted = [(0, \<lparr>data = ''a'', promise = 0\<rparr>)], promises = 2,
          settled = [], console = [], awaiting = [], terminated = []\<rparr>"
  by (simp add: pool_run_def WorkerPool_new_eq fresh_def poolSize_arg_def runTask_eq)

text \<open>A new pool of one worker.\<close>

lemma run_nothing:
  "pool_run ''crypto.worker.js'' (Some 1) [] =
     Inr \<lparr>workers = [0], availableWorkers = [0], taskQueue = [],
          workerScript = ''crypto.worker.js'', poolSize = 1, spawned = 1,
          messageListeners = [], errorListeners = [], posted = [], promises = 0,
          settled = [], console = [], awaiting = [], terminated = []\<rparr>"
  by (simp add: pool_run_def WorkerPool_new_eq fresh_def poolSize_arg_def)

text \<open>A pool of two workers, three submissions, two completions and a call of \<open>terminate\<close>.\<close>

lemma run_three_tasks:
  "pool_run ''crypto.worker.js'' (Some 2)
     [RunTask ''a'', RunTask ''b'', RunTask ''c'', WorkerMessage 0 ok, WorkerMessage 1 ok, Terminate] =
     Inr \<lparr>workers = [0, 1], availableWorkers = [1], taskQueue = [],
          workerScript = ''crypto.worker.js'', poolSize = 2, spawned = 2,
          messageListeners = [(0, \<lparr>data = ''c'', promise = 2\<rparr>)],
          errorListeners = [(0, \<lparr>data = ''c'', promise = 2\<rparr>)],
          posted = [(1, \<lparr>data = ''a'', promise = 0\<rparr>), (0, \<lparr>data = ''b'', promise = 1\<rparr>),
                    (0, \<lparr>data = ''c'', promise = 2\<rparr>)],
          promises = 3, settled = [(1, Fulfilled ok), (0, Fulfilled ok)],
          console = [], awaiting = [[0, 1]], terminated = []\<rparr>"
  by (simp add: pool_run_def WorkerPool_new_eq fresh_def poolSize_arg_def runTask_eq live_def
      messageHandler_def removeListener_def executeTask_def resolve_def reject_def ok_def Let_def
      terminate_call_def upt_conv_Cons)

text \<open>A pool of two workers that is shut down at once.\<close>

lemma run_terminate:
  "pool_run ''crypto.worker.js'' (Some 2) [Terminate, TerminateResume] =
     Inr \<lparr>workers = [], availableWorkers = [], taskQueue = [],
          workerScript = ''crypto.worker.js'', poolSize = 2, spawned = 2,
          messageListeners = [], errorListeners = [], posted = [], promises = 0,
          settled = [], console = [], awaiting = [], terminated = [0, 1]\<rparr>"
  by (simp add: pool_run_def WorkerPool_new_eq fresh_def poolSize_arg_def
      terminate_call_def terminate_resume_def upt_conv_Cons)


text \<open>
  After that run no worker is available and the only worker has stopped: whatever
  happens next, the tasks \<open>b\<close> and \<open>c\<close> are never settled.
\<close>

lemma crashed_pool_hangs:
  "\<exists>s'. run es
          \<lparr>workers = [0], availableWorkers = [],
           taskQueue = [\<lparr>data = ''c'', promise = 2\<rparr>],
           workerScript = ''crypto.worker.js'', poolSize = 1, spawned = 1,
           messageListeners = [(0, \<lparr>data = ''b'', promise = 1\<rparr>)],
           errorListeners = [(0, \<lparr>data = ''b'', promise = 1\<rparr>)],
           posted = [(0, \<lparr>data = ''a'', promise = 0\<rparr>), (0, \<lparr>data = ''b'', promise = 1\<rparr>)],
           promises = 3, settled = [(0, Rejected (Error ''boom''))],
           console = [''Worker error:'', ''Worker stopped with exit code''],
           awaiting = [], terminated = [0]\<rparr> = Inr s' \<and>
        settlements s' 1 = [] \<and> settlements s' 2 = []"
proof -
  let ?s = "\<lparr>workers = [0], availableWorkers = [],
           taskQueue = [\<lparr>data = ''c'', promise = 2\<rparr>],
           workerScript = ''crypto.worker.js'', poolSize = 1, spawned = 1,
           messageListeners = [(0, \<lparr>data = ''b'', promise = 1\<rparr>)],
           errorListeners = [(0, \<lparr>data = ''b'', promise = 1\<rparr>)],
           posted = [(0, \<lparr>data = ''a'', promise = 0\<rparr>), (0, \<lparr>data = ''b'', promise = 1\<rparr>)],
           promises = 3, settled = [(0, Rejected (Error ''boom''))],
           console = [''Worker error:'', ''Worker stopped with exit code''],
           awaiting = [], terminated = [0]\<rparr>"
  have "stopped ?s" by (simp add: stopped_def)
  then obtain s' where "run es ?s = Inr s'" and "settled s' = settled ?s"
    using stopped_never_settles by blast
  then show ?thesis by (auto simp: settlements_def)
qed

section \<open>The claims\<close>

text \<open>
  C1, as amended. The constructor checks nothing and never fails. For every requested
  capacity it yields a pool; the pool has \<open>max 0 capacity\<close> workers (exactly
  \<open>capacity\<close> of them when \<open>capacity \<ge> 1\<close>, none when it is zero or negative), every
  worker is idle, none is busy and the queue is empty.
\<close>

theorem construction_unchecked:
  "\<exists>s. WorkerPool_new script sz = Inr s \<and>
       workers s = [0 ..< nat (poolSize_arg sz)] \<and>
       availableWorkers s = workers s \<and>
       busy s = [] \<and>
       taskQueue s = [] \<and>
       int (length (workers s)) = max 0 (poolSize_arg sz)"
  by (simp add: WorkerPool_new_eq fresh_def busy_def)

text \<open>
  C1 as stated fails: with capacity 0 the construction succeeds, with an empty pool,
  where the claim has it fail with a \<open>ConfigurationError\<close>.
\<close>

theorem capacity_zero_accepted:
  "WorkerPool_new ''crypto.worker.js'' (Some 0) =
     Inr \<lparr>workers = [], availableWorkers = [], taskQueue = [],
          workerScript = ''crypto.worker.js'', poolSize = 0, spawned = 0,
          messageListeners = [], errorListeners = [], posted = [], promises = 0,
          settled = [], console = [], awaiting = [], terminated = []\<rparr>"
  by (simp add: WorkerPool_new_eq fresh_def poolSize_arg_def)

text \<open>
  C2, as amended. After \<open>terminate\<close> has completed, \<open>workers\<close> and \<open>availableWorkers\<close>
  are empty and \<open>taskQueue\<close> is what it was: both when nothing runs between the call and
  its completion, and when a suspended call resumes in any state.
\<close>

theorem terminate_clears_workers:
  "workers (terminate s) = [] \<and> availableWorkers (terminate s) = [] \<and>
   taskQueue (terminate s) = taskQueue s \<and>
   workers (terminate_resume (s\<lparr>awaiting := ws # rest\<rparr>)) = [] \<and>
   availableWorkers (terminate_resume (s\<lparr>awaiting := ws # rest\<rparr>)) = [] \<and>
   taskQueue (terminate_resume (s\<lparr>awaiting := ws # rest\<rparr>)) = taskQueue s"
  by (simp add: terminate_def terminate_call_def terminate_resume_def split: list.splits)

text \<open>
  C2 as stated fails: a pool of one worker with one task in flight and one task queued
  still has the queued task after \<open>terminate\<close> has completed.
\<close>

theorem terminate_keeps_queue:
  "map_sum id taskQueue
     (pool_run ''crypto.worker.js'' (Some 1)
        [RunTask ''a'', RunTask ''b'', Terminate, TerminateResume]) =
     Inr [\<lparr>data = ''b'', promise = 1\<rparr>]"
  by (simp add: run_two_then_terminate)

text \<open>
  C3. In every state a pool can reach, by any sequence of submissions, worker events
  and shutdowns, \<open>resolve\<close> and \<open>reject\<close> have been called at most once in total for
  each promise; and a promise that has been settled has no \<open>message\<close> listener and no
  \<open>error\<close> listener left on any worker and is not in the queue, so that no later event
  can settle it again.
\<close>

theorem settled_at_most_once:
  assumes "pool_run script sz es = Inr s"
  shows "length (settlements s p) \<le> 1 \<and>
         (settlements s p \<noteq> [] \<longrightarrow>
            p \<notin> set (pending_ids s) \<and>
            p \<notin> set (map (\<lambda>l. promise (snd l)) (errorListeners s)) \<and>
            p \<notin> set (queued_ids s))"
proof -
  have c: "consistent s" and o: "in_order s" and a: "once s"
    using pool_run_invariant' [OF assms] by simp_all
  have "distinct (map fst (settled s))" using a by (simp add: once_def settled_ids_def)
  then have "length (filter (\<lambda>c. fst c = p) (settled s)) \<le> 1" by (rule at_most_one_call)
  then have one: "length (settlements s p) \<le> 1" by (simp add: settlements_def)
  have eq: "map (\<lambda>l. promise (snd l)) (errorListeners s) = pending_ids s"
    using c by (simp add: consistent_def pending_ids_def)
  have d: "distinct (posted_ids s @ queued_ids s)" using o by (simp add: in_order_def)
  {
    assume "settlements s p \<noteq> []"
    then have p: "p \<in> set (settled_ids s)" by (rule settlements_nonempty)
    then have "p \<notin> set (pending_ids s)" using a unfolding once_def by blast
    moreover have "p \<in> set (posted_ids s)" using p a unfolding once_def by blast
    then have "p \<notin> set (queued_ids s)" using d by auto
    ultimately have "p \<notin> set (pending_ids s) \<and>
        p \<notin> set (map (\<lambda>l. promise (snd l)) (errorListeners s)) \<and> p \<notin> set (queued_ids s)"
      using eq by simp
  }
  with one show ?thesis by blast
qed

text \<open>
  One worker, tasks \<open>a\<close> and \<open>b\<close>, and three messages of the worker: the first settles
  \<open>a\<close>, the second settles \<open>b\<close>, the third finds no listener.
\<close>

theorem settled_at_most_once_witness:
  "pool_run ''crypto.worker.js'' (Some 1)
     [RunTask ''a'', RunTask ''b'', WorkerMessage 0 ok, WorkerMessage 0 ok, WorkerMessage 0 ok] =
     Inr \<lparr>workers = [0], availableWorkers = [0], taskQueue = [],
          workerScript = ''crypto.worker.js'', poolSize = 1, spawned = 1,
          messageListeners = [], errorListeners = [],
          posted = [(0, \<lparr>data = ''a'', promise = 0\<rparr>), (0, \<lparr>data = ''b'', promise = 1\<rparr>)],
          promises = 2, settled = [(0, Fulfilled ok), (1, Fulfilled ok)],
          console = [], awaiting = [], terminated = []\<rparr> \<and>
   settlements (projr (pool_run ''crypto.worker.js'' (Some 1)
     [RunTask ''a'', RunTask ''b'', WorkerMessage 0 ok, WorkerMessage 0 ok, WorkerMessage 0 ok])) 0 =
     [Fulfilled ok] \<and>
   length (settlements (projr (pool_run ''crypto.worker.js'' (Some 1)
     [RunTask ''a'', RunTask ''b'', WorkerMessage 0 ok, WorkerMessage 0 ok, WorkerMessage 0 ok])) 0) \<le> 1"
  using settled_at_most_once [OF run_two_messages, of 0]
  by (simp add: run_two_messages settlements_def)

text \<open>
  C4. Promise handles count submissions, so the order of handles is the order of
  submission. In every state a pool can reach, the tasks posted to workers, in the order
  of their posting, followed by the tasks waiting in the queue, in the order of the
  queue, are all the tasks submitted so far in the order of their submission: a task is
  never posted before one submitted earlier, and the queue holds the latest
  submissions, oldest at its head. And when a worker with a task in flight completes,
  by a message or by an error, while the queue is not empty, the head of the queue
  leaves the queue and is posted to that worker.
\<close>

theorem queue_is_fifo:
  assumes "pool_run script sz es = Inr s"
  shows "posted_ids s @ queued_ids s = [0 ..< promises s] \<and>
         (\<forall>w res. live s w \<and> w \<in> set (map fst (messageListeners s)) \<and> taskQueue s \<noteq> [] \<longrightarrow>
            (\<exists>s'. step (WorkerMessage w res) s = Inr s' \<and>
                  taskQueue s' = tl (taskQueue s) \<and>
                  posted s' = posted s @ [(w, hd (taskQueue s))])) \<and>
         (\<forall>w err. live s w \<and> w \<in> set (map fst (messageListeners s)) \<and> taskQueue s \<noteq> [] \<longrightarrow>
            (\<exists>s'. step (WorkerError w err) s = Inr s' \<and>
                  taskQueue s' = tl (taskQueue s) \<and>
                  posted s' = posted s @ [(w, hd (taskQueue s))]))"
proof -
  have c: "consistent s" and o: "in_order s"
    using pool_run_invariant' [OF assms] by simp_all
  have "posted_ids s @ queued_ids s = [0 ..< promises s]" using o by (simp add: in_order_def)
  moreover have "\<And>w res. live s w \<and> w \<in> set (map fst (messageListeners s)) \<and> taskQueue s \<noteq> [] \<Longrightarrow>
            (\<exists>s'. step (WorkerMessage w res) s = Inr s' \<and>
                  taskQueue s' = tl (taskQueue s) \<and>
                  posted s' = posted s @ [(w, hd (taskQueue s))])"
    by (simp add: step_message [OF c] after_completion_fields settle_with_fields del: step.simps)
  moreover have "\<And>w err. live s w \<and> w \<in> set (map fst (messageListeners s)) \<and> taskQueue s \<noteq> [] \<Longrightarrow>
            (\<exists>s'. step (WorkerError w err) s = Inr s' \<and>
                  taskQueue s' = tl (taskQueue s) \<and>
                  posted s' = posted s @ [(w, hd (taskQueue s))])"
    by (simp add: step_error [OF c] after_completion_fields settle_with_fields del: step.simps)
  ultimately show ?thesis by blast
qed

text \<open>
  One worker, task \<open>a\<close> in flight and task \<open>b\<close> queued: when the worker reports,
  \<open>b\<close> is posted.
\<close>

theorem queue_is_fifo_witness:
  "pool_run ''crypto.worker.js'' (Some 1) [RunTask ''a'', RunTask ''b''] =
     Inr \<lparr>workers = [0], availableWorkers = [],
          taskQueue = [\<lparr>data = ''b'', promise = 1\<rparr>],
          workerScript = ''crypto.worker.js'', poolSize = 1, spawned = 1,
          messageListeners = [(0, \<lparr>data = ''a'', promise = 0\<rparr>)],
          errorListeners = [(0, \<lparr>data = ''a'', promise = 0\<rparr>)],
          posted = [(0, \<lparr>data = ''a'', promise = 0\<rparr>)], promises = 2,
          settled = [], console = [], awaiting = [], terminated = []\<rparr> \<and>
   posted_ids (projr (pool_run ''crypto.worker.js'' (Some 1) [RunTask ''a'', RunTask ''b''])) = [0] \<and>
   queued_ids (projr (pool_run ''crypto.worker.js'' (Some 1) [RunTask ''a'', RunTask ''b''])) = [1] \<and>
   live (projr (pool_run ''crypto.worker.js'' (Some 1) [RunTask ''a'', RunTask ''b''])) 0 \<and>
   (\<exists>s'. step (WorkerMessage 0 ok)
            (projr (pool_run ''crypto.worker.js'' (Some 1) [RunTask ''a'', RunTask ''b''])) = Inr s' \<and>
         taskQueue s' = [] \<and>
         posted s' = [(0, \<lparr>data = ''a'', promise = 0\<rparr>), (0, \<lparr>data = ''b'', promise = 1\<rparr>)])"
  using queue_is_fifo [OF run_two_tasks]
  by (simp add: run_two_tasks posted_ids_def queued_ids_def live_def del: step.simps)

text \<open>
  C5, as amended. For a pool built with a capacity that is not negative, and for as long
  as no \<open>terminate\<close> has completed, the number of idle workers plus the number of busy
  workers (those that carry the completion listener of a task) is the capacity, after
  any sequence of submissions, worker events and calls of \<open>terminate\<close>.
\<close>

theorem capacity_until_shutdown:
  assumes "pool_run script sz es = Inr s" and "TerminateResume \<notin> set es" and "0 \<le> poolSize s"
  shows "int (length (availableWorkers s) + length (busy s)) = poolSize s"
proof -
  obtain s0 where s0: "WorkerPool_new script sz = Inr s0" and r: "run es s0 = Inr s"
    using assms(1) by (auto simp: pool_run_def split: sum.splits)
  have i: "invariant s" using assms(1) by (rule pool_run_invariant)
  have "running s"
    using invariant_new [OF s0] running_new [OF s0] assms(2) r by (rule running_run)
  then have "length (availableWorkers s) + length (busy s) = spawned s"
    using i by (simp add: running_count)
  moreover have "nat (poolSize s) = spawned s" using i by (simp add: invariant_def accounted_def)
  ultimately show ?thesis using assms(3) by simp
qed

text \<open>
  Two workers, three tasks, two completions and a call of \<open>terminate\<close> that is still
  suspended: one worker is idle and one is busy.
\<close>

theorem capacity_until_shutdown_witness:
  "pool_run ''crypto.worker.js'' (Some 2)
     [RunTask ''a'', RunTask ''b'', RunTask ''c'', WorkerMessage 0 ok, WorkerMessage 1 ok, Terminate] =
     Inr \<lparr>workers = [0, 1], availableWorkers = [1], taskQueue = [],
          workerScript = ''crypto.worker.js'', poolSize = 2, spawned = 2,
          messageListeners = [(0, \<lparr>data = ''c'', promise = 2\<rparr>)],
          errorListeners = [(0, \<lparr>data = ''c'', promise = 2\<rparr>)],
          posted = [(1, \<lparr>data = ''a'', promise = 0\<rparr>), (0, \<lparr>data = ''b'', promise = 1\<rparr>),
                    (0, \<lparr>data = ''c'', promise = 2\<rparr>)],
          promises = 3, settled = [(1, Fulfilled ok), (0, Fulfilled ok)],
          console = [], awaiting = [[0, 1]], terminated = []\<rparr> \<and>
   TerminateResume \<notin> set [RunTask ''a'', RunTask ''b'', RunTask ''c'', WorkerMessage 0 ok,
                             WorkerMessage 1 ok, Terminate] \<and>
   availableWorkers (projr (pool_run ''crypto.worker.js'' (Some 2)
     [RunTask ''a'', RunTask ''b'', RunTask ''c'', WorkerMessage 0 ok, WorkerMessage 1 ok, Terminate])) = [1] \<and>
   busy (projr (pool_run ''crypto.worker.js'' (Some 2)
     [RunTask ''a'', RunTask ''b'', RunTask ''c'', WorkerMessage 0 ok, WorkerMessage 1 ok, Terminate])) = [0] \<and>
   int (length (availableWorkers (projr (pool_run ''crypto.worker.js'' (Some 2)
     [RunTask ''a'', RunTask ''b'', RunTask ''c'', WorkerMessage 0 ok, WorkerMessage 1 ok, Terminate]))) +
        length (busy (projr (pool_run ''crypto.worker.js'' (Some 2)
     [RunTask ''a'', RunTask ''b'', RunTask ''c'', WorkerMessage 0 ok, WorkerMessage 1 ok, Terminate])))) = 2"
  using capacity_until_shutdown [OF run_three_tasks]
  unfolding run_three_tasks
  by (simp add: busy_def)

text \<open>
  C5 as stated fails: once \<open>terminate\<close> has completed on a pool of capacity 2, no
  worker is idle and none is busy.
\<close>

theorem capacity_lost_after_terminate:
  "map_sum id availableWorkers
     (pool_run ''crypto.worker.js'' (Some 2) [Terminate, TerminateResume]) = Inr [] \<and>
   map_sum id busy
     (pool_run ''crypto.worker.js'' (Some 2) [Terminate, TerminateResume]) = Inr [] \<and>
   map_sum id poolSize
     (pool_run ''crypto.worker.js'' (Some 2) [Terminate, TerminateResume]) = Inr 2"
  by (simp add: run_terminate busy_def)

text \<open>
  C6. In every state a pool can reach, \<open>runTask\<close> returns a new promise and does one
  of two things. If a worker is available, the last one is taken from
  \<open>availableWorkers\<close>, the completion listeners of the task are attached to it and
  the data is posted to it. Otherwise the task is appended at the end of the queue.
  Nothing is settled by the call, and the returned promise is pending after it: no
  exception leaves \<open>runTask\<close>, and none is turned into a rejection.
\<close>

theorem runTask_dispatches_or_queues:
  assumes "pool_run script sz es = Inr s"
  shows "runTask d s =
     (promises s,
      if availableWorkers s \<noteq> [] then
        s\<lparr>promises := Suc (promises s),
          availableWorkers := butlast (availableWorkers s),
          messageListeners :=
            messageListeners s @ [(last (availableWorkers s), \<lparr>data = d, promise = promises s\<rparr>)],
          errorListeners :=
            errorListeners s @ [(last (availableWorkers s), \<lparr>data = d, promise = promises s\<rparr>)],
          posted := posted s @ [(last (availableWorkers s), \<lparr>data = d, promise = promises s\<rparr>)]\<rparr>
      else
        s\<lparr>promises := Suc (promises s),
          taskQueue := taskQueue s @ [\<lparr>data = d, promise = promises s\<rparr>]\<rparr>) \<and>
     settled (snd (runTask d s)) = settled s \<and>
     settlements (snd (runTask d s)) (promises s) = []"
proof -
  have o: "in_order s" and a: "once s"
    using pool_run_invariant' [OF assms] by simp_all
  have same: "settled (snd (runTask d s)) = settled s" by (simp add: runTask_eq)
  have "promises s \<notin> set (settled_ids s)" using o a by (rule settled_below)
  then have "promises s \<notin> set (settled_ids (snd (runTask d s)))"
    using same by (simp add: settled_ids_def)
  then have "settlements (snd (runTask d s)) (promises s) = []" by (rule settlements_empty)
  with same show ?thesis by (simp only: runTask_eq simp_thms)
qed

text \<open>A new pool of one worker: the first submission is posted to worker 0.\<close>

theorem runTask_dispatches_or_queues_witness:
  "pool_run ''crypto.worker.js'' (Some 1) [] =
     Inr \<lparr>workers = [0], availableWorkers = [0], taskQueue = [],
          workerScript = ''crypto.worker.js'', poolSize = 1, spawned = 1,
          messageListeners = [], errorListeners = [], posted = [], promises = 0,
          settled = [], console = [], awaiting = [], terminated = []\<rparr> \<and>
   runTask ''a'' (projr (pool_run ''crypto.worker.js'' (Some 1) [])) =
     (0, \<lparr>workers = [0], availableWorkers = [], taskQueue = [],
          workerScript = ''crypto.worker.js'', poolSize = 1, spawned = 1,
          messageListeners = [(0, \<lparr>data = ''a'', promise = 0\<rparr>)],
          errorListeners = [(0, \<lparr>data = ''a'', promise = 0\<rparr>)],
          posted = [(0, \<lparr>data = ''a'', promise = 0\<rparr>)], promises = 1,
          settled = [], console = [], awaiting = [], terminated = []\<rparr>) \<and>
   settlements (snd (runTask ''a'' (projr (pool_run ''crypto.worker.js'' (Some 1) [])))) 0 = []"
  using runTask_dispatches_or_queues [OF run_nothing, of "''a''"]
  unfolding run_nothing
  by (simp add: runTask_eq settlements_def)




text \<open>
  C8. For every payload, whatever the heavy call does, the listener of the worker unit
  ends without an exception and has posted exactly one more message: the success
  message when the call returned, and \<open>{success: false, error: description}\<close> when it
  threw. Over any sequence of payloads the unit posts as many messages as it received
  payloads.
\<close>

theorem one_result_per_payload:
  "on_message h d out =
     Inr (out @ [case h of
                   Returns \<Rightarrow> \<lparr>success = True, error = None,
                                message = Some ''Vitals encrypted successfully''\<rparr>
                 | Throws x \<Rightarrow> \<lparr>success = False, error = Some (description x),
                                 message = None\<rparr>]) \<and>
   (\<exists>out'. serve ps out = Inr out' \<and> length out' = length out + length ps)"
  using on_message_eq serve_length by blast

text \<open>
  C9. \<open>executeTask\<close> throws exactly when \<open>availableWorkers\<close> is empty, and none of
  its callers reaches it in that case, in any state: the executor of \<open>runTask\<close> calls
  it under its guard, and both handlers call it right after they have pushed their
  worker. So the executor, the handlers and every sequence of events end without an
  exception.
\<close>

theorem pop_never_undefined:
  "(\<exists>e. executeTask task s = Inl e) = (availableWorkers s = []) \<and>
   (\<exists>s'. executor task s = Inr s') \<and>
   (\<exists>s'. messageHandler w task res s = Inr s') \<and>
   (\<exists>s'. errorHandler w task err s = Inr s') \<and>
   (\<exists>s'. run es s = Inr s')"
proof -
  have "(\<exists>e. executeTask task s = Inl e) = (availableWorkers s = [])"
    by (simp add: executeTask_def Let_def)
  moreover have "\<exists>s'. executor task s = Inr s'"
    by (simp add: executor_def executeTask_Inr)
  ultimately show ?thesis
    using messageHandler_Inr errorHandler_Inr run_Inr by blast
qed

text \<open>
  C10. Take any state a pool can reach in which a call of \<open>terminate\<close> is suspended,
  let that call complete, and let anything happen afterwards. Then every call of
  \<open>runTask\<close> returns a new promise and appends its task at the end of the queue, and
  whatever happens after that, neither \<open>resolve\<close> nor \<open>reject\<close> is ever called for
  that promise.
\<close>

theorem submissions_after_terminate_hang:
  assumes "pool_run script sz es = Inr s0" and "awaiting s0 \<noteq> []"
    and "run es1 (terminate_resume s0) = Inr s"
  shows "runTask d s =
           (promises s,
            s\<lparr>promises := Suc (promises s),
              taskQueue := taskQueue s @ [\<lparr>data = d, promise = promises s\<rparr>]\<rparr>) \<and>
         (\<forall>es2. \<exists>s'. run es2 (snd (runTask d s)) = Inr s' \<and>
                       settlements s' (promises s) = [])"
proof -
  have i0: "invariant s0" using assms(1) by (rule pool_run_invariant)
  have "invariant (terminate_resume s0)" using i0 by (rule invariant_terminate_resume)
  then have i: "invariant s" using assms(3) by (rule run_invariant)
  have "stopped (terminate_resume s0)" using i0 assms(2) by (rule stopped_resume)
  then have st: "stopped s" using assms(3) by (auto dest: stopped_run)
  then have av: "availableWorkers s = []" by (simp add: stopped_def)
  have r: "runTask d s =
           (promises s,
            s\<lparr>promises := Suc (promises s),
              taskQueue := taskQueue s @ [\<lparr>data = d, promise = promises s\<rparr>]\<rparr>)"
    by (simp add: runTask_eq av)
  have st': "stopped (snd (runTask d s))" using st by (simp add: r stopped_def)
  have "in_order s" and "once s" using i by (simp_all add: invariant_def)
  then have fresh: "promises s \<notin> set (settled_ids s)" by (rule settled_below)
  have "\<exists>s'. run es2 (snd (runTask d s)) = Inr s' \<and> settlements s' (promises s) = []" for es2
  proof -
    obtain s' where s': "run es2 (snd (runTask d s)) = Inr s'" using run_Inr by blast
    with st' have "settled s' = settled (snd (runTask d s))" by (auto dest: stopped_run)
    then have "settled s' = settled s" by (simp add: r)
    then have "promises s \<notin> set (settled_ids s')" using fresh by (simp add: settled_ids_def)
    then have "settlements s' (promises s) = []" by (rule settlements_empty)
    with s' show ?thesis by blast
  qed
  with r show ?thesis by blast
qed

text \<open>
  One worker, task \<open>a\<close> in flight, task \<open>b\<close> queued, \<open>terminate\<close> called and
  completed; the stopped worker is then silent, and a task \<open>c\<close> submitted afterwards
  is never settled.
\<close>

theorem submissions_after_terminate_hang_witness:
  "pool_run ''crypto.worker.js'' (Some 1) [RunTask ''a'', RunTask ''b'', Terminate] =
     Inr \<lparr>workers = [0], availableWorkers = [],
          taskQueue = [\<lparr>data = ''b'', promise = 1\<rparr>],
          workerScript = ''crypto.worker.js'', poolSize = 1, spawned = 1,
          messageListeners = [(0, \<lparr>data = ''a'', promise = 0\<rparr>)],
          errorListeners = [(0, \<lparr>data = ''a'', promise = 0\<rparr>)],
          posted = [(0, \<lparr>data = ''a'', promise = 0\<rparr>)], promises = 2,
          settled = [], console = [], awaiting = [[0]], terminated = []\<rparr> \<and>
   awaiting (projr (pool_run ''crypto.worker.js'' (Some 1) [RunTask ''a'', RunTask ''b'', Terminate]))
     \<noteq> [] \<and>
   run [WorkerMessage 0 ok]
     (terminate_resume
        (projr (pool_run ''crypto.worker.js'' (Some 1) [RunTask ''a'', RunTask ''b'', Terminate]))) =
     Inr \<lparr>workers = [], availableWorkers = [],
          taskQueue = [\<lparr>data = ''b'', promise = 1\<rparr>],
          workerScript = ''crypto.worker.js'', poolSize = 1, spawned = 1,
          messageListeners = [(0, \<lparr>data = ''a'', promise = 0\<rparr>)],
          errorListeners = [(0, \<lparr>data = ''a'', promise = 0\<rparr>)],
          posted = [(0, \<lparr>data = ''a'', promise = 0\<rparr>)], promises = 2,
          settled = [], console = [], awaiting = [], terminated = [0]\<rparr> \<and>
   (\<forall>es2. \<exists>s'.
      run es2
        (snd (runTask ''c''
           \<lparr>workers = [], availableWorkers = [],
            taskQueue = [\<lparr>data = ''b'', promise = 1\<rparr>],
            workerScript = ''crypto.worker.js'', poolSize = 1, spawned = 1,
            messageListeners = [(0, \<lparr>data = ''a'', promise = 0\<rparr>)],
            errorListeners = [(0, \<lparr>data = ''a'', promise = 0\<rparr>)],
            posted = [(0, \<lparr>data = ''a'', promise = 0\<rparr>)], promises = 2,
            settled = [], console = [], awaiting = [], terminated = [0]\<rparr>)) = Inr s' \<and>
      settlements s' 2 = [])"
proof -
  have a: "pool_run ''crypto.worker.js'' (Some 1) [RunTask ''a'', RunTask ''b'', Terminate] =
     Inr \<lparr>workers = [0], availableWorkers = [],
          taskQueue = [\<lparr>data = ''b'', promise = 1\<rparr>],
          workerScript = ''crypto.worker.js'', poolSize = 1, spawned = 1,
          messageListeners = [(0, \<lparr>data = ''a'', promise = 0\<rparr>)],
          errorListeners = [(0, \<lparr>data = ''a'', promise = 0\<rparr>)],
          posted = [(0, \<lparr>data = ''a'', promise = 0\<rparr>)], promises = 2,
          settled = [], console = [], awaiting = [[0]], terminated = []\<rparr>"
    by (simp add: pool_run_def WorkerPool_new_eq fresh_def poolSize_arg_def runTask_eq
        terminate_call_def)
  have b: "awaiting \<lparr>workers = [0], availableWorkers = [],
          taskQueue = [\<lparr>data = ''b'', promise = 1\<rparr>],
          workerScript = ''crypto.worker.js'', poolSize = 1, spawned = 1,
          messageListeners = [(0, \<lparr>data = ''a'', promise = 0\<rparr>)],
          errorListeners = [(0, \<lparr>data = ''a'', promise = 0\<rparr>)],
          posted = [(0, \<lparr>data = ''a'', promise = 0\<rparr>)], promises = 2,
          settled = [], console = [], awaiting = [[0]], terminated = []\<rparr> \<noteq> []"
    by simp
  have c: "run [WorkerMessage 0 ok]
     (terminate_resume \<lparr>workers = [0], availableWorkers = [],
          taskQueue = [\<lparr>data = ''b'', promise = 1\<rparr>],
          workerScript = ''crypto.worker.js'', poolSize = 1, spawned = 1,
          messageListeners = [(0, \<lparr>data = ''a'', promise = 0\<rparr>)],
          errorListeners = [(0, \<lparr>data = ''a'', promise = 0\<rparr>)],
          posted = [(0, \<lparr>data = ''a'', promise = 0\<rparr>)], promises = 2,
          settled = [], console = [], awaiting = [[0]], terminated = []\<rparr>) =
     Inr \<lparr>workers = [], availableWorkers = [],
          taskQueue = [\<lparr>data = ''b'', promise = 1\<rparr>],
          workerScript = ''crypto.worker.js'', poolSize = 1, spawned = 1,
          messageListeners = [(0, \<lparr>data = ''a'', promise = 0\<rparr>)],
          errorListeners = [(0, \<lparr>data = ''a'', promise = 0\<rparr>)],
          posted = [(0, \<lparr>data = ''a'', promise = 0\<rparr>)], promises = 2,
          settled = [], console = [], awaiting = [], terminated = [0]\<rparr>"
    by (simp add: terminate_resume_def live_def)
  have "\<forall>es2. \<exists>s'.
      run es2
        (snd (runTask ''c''
           \<lparr>workers = [], availableWorkers = [],
            taskQueue = [\<lparr>data = ''b'', promise = 1\<rparr>],
            workerScript = ''crypto.worker.js'', poolSize = 1, spawned = 1,
            messageListeners = [(0, \<lparr>data = ''a'', promise = 0\<rparr>)],
            errorListeners = [(0, \<lparr>data = ''a'', promise = 0\<rparr>)],
            posted = [(0, \<lparr>data = ''a'', promise = 0\<rparr>)], promises = 2,
            settled = [], console = [], awaiting = [], terminated = [0]\<rparr>)) = Inr s' \<and>
      settlements s' 2 = []"
    using submissions_after_terminate_hang [OF a b c, of "''c''", THEN conjunct2]
    by (simp only: pool.select_convs simp_thms)
  then show ?thesis
    unfolding a sum.sel by (intro conjI refl b c)
qed

end
